theory Spec2Isabelle
  imports Complex_Main "HOL-Library.Word"
begin

section \<open>The API types of the IP address management resources\<close>

text \<open>
  The package \<^verbatim>\<open>api/v1alpha1\<close> declares the resource types of the platform. Its only
  executable code is a handful of helper methods; validation of the resources is declared
  by \<^verbatim>\<open>+kubebuilder:validation\<close> markers on the fields, from which the schema of the
  resource is generated. Both are embedded here: the helpers as functions, the markers as
  the predicates they generate.
\<close>

subsection \<open>Substring helper of the identity provider types\<close>

text \<open>
  \<^verbatim>\<open>containsAt(s, substr, start)\<close>: the loop \<^verbatim>\<open>for i := start; i <= len(s)-len(substr); i++\<close>
  over Go's signed \<^verbatim>\<open>int\<close>. The slice \<^verbatim>\<open>s[i:i+len(substr)]\<close> panics when \<open>i\<close> is
  negative (its upper bound is within the string by the loop condition); the panic is the
  result \<open>None\<close>. A Go string is a sequence of bytes, here a \<open>char list\<close>.
\<close>

function containsAt :: "string \<Rightarrow> string \<Rightarrow> int \<Rightarrow> bool option" where
  "containsAt s substr i =
     (if i \<le> int (length s) - int (length substr)
      then (if i < 0 then None
            else if take (length substr) (drop (nat i) s) = substr then Some True
            else containsAt s substr (i + 1))
      else Some False)"
  by pat_completeness auto
termination
  by (relation "measure (\<lambda>(s, substr, i). nat (int (length s) - int (length substr) - i + 1))") auto

declare containsAt.simps [simp del]

text \<open>
  \<^verbatim>\<open>contains(s, substr)\<close>:
  \<^verbatim>\<open>len(s) >= len(substr) && (s == substr || len(s) > 0 && containsAt(s, substr, 0))\<close>,
  with Go's short-circuit evaluation.
\<close>

definition contains :: "string \<Rightarrow> string \<Rightarrow> bool option" where
  "contains s substr =
     (if length s \<ge> length substr
      then (if s = substr then Some True
            else if length s > 0 then containsAt s substr 0
            else Some False)
      else Some False)"

text \<open>The substring \<open>substr\<close> stands in \<open>s\<close> at byte offset \<open>k\<close>.\<close>

definition occurs_at :: "string \<Rightarrow> string \<Rightarrow> nat \<Rightarrow> bool" where
  "occurs_at s substr k =
     (k + length substr \<le> length s \<and> take (length substr) (drop k s) = substr)"

subsection \<open>Enumerations of the IPAllocation resource\<close>

text \<open>
  \<^verbatim>\<open>type IPAllocationType string\<close> and \<^verbatim>\<open>type IPAllocationPhase string\<close> with their
  constants, and the value lists of the markers
  \<^verbatim>\<open>+kubebuilder:validation:Enum=nodes;loadbalancer\<close> and
  \<^verbatim>\<open>+kubebuilder:validation:Enum=Pending;Allocated;Released;Failed\<close>.
\<close>

type_synonym IPAllocationType = string

definition IPAllocationTypeNodes :: IPAllocationType where
  "IPAllocationTypeNodes = ''nodes''"

definition IPAllocationTypeLoadBalancer :: IPAllocationType where
  "IPAllocationTypeLoadBalancer = ''loadbalancer''"

definition IPAllocationType_Enum :: "string list" where
  "IPAllocationType_Enum = [''nodes'', ''loadbalancer'']"

type_synonym IPAllocationPhase = string

definition IPAllocationPhasePending :: IPAllocationPhase where
  "IPAllocationPhasePending = ''Pending''"

definition IPAllocationPhaseAllocated :: IPAllocationPhase where
  "IPAllocationPhaseAllocated = ''Allocated''"

definition IPAllocationPhaseReleased :: IPAllocationPhase where
  "IPAllocationPhaseReleased = ''Released''"

definition IPAllocationPhaseFailed :: IPAllocationPhase where
  "IPAllocationPhaseFailed = ''Failed''"

definition IPAllocationPhase_Enum :: "string list" where
  "IPAllocationPhase_Enum = [''Pending'', ''Allocated'', ''Released'', ''Failed'']"

text \<open>An \<^verbatim>\<open>Enum\<close> marker admits exactly the listed values.\<close>

definition enum_valid :: "string list \<Rightarrow> string \<Rightarrow> bool" where
  "enum_valid allowed v = (v \<in> set allowed)"

subsection \<open>The request: IPAllocationSpec\<close>

text \<open>
  \<^verbatim>\<open>LocalObjectReference\<close>, \<^verbatim>\<open>NamespacedObjectReference\<close>, \<^verbatim>\<open>PinnedIPRange\<close> and
  \<^verbatim>\<open>IPAllocationSpec\<close>. The two \<^verbatim>\<open>Name\<close> fields are told apart by a prefix. A pointer
  field (\<^verbatim>\<open>*int32\<close>, \<^verbatim>\<open>*PinnedIPRange\<close>) is an \<open>option\<close>, \<open>None\<close> for \<^verbatim>\<open>nil\<close>.
\<close>

record LocalObjectReference =
  local_Name :: string

record NamespacedObjectReference =
  namespaced_Name :: string
  Namespace :: string

record PinnedIPRange =
  StartAddress :: string
  EndAddress :: string

record IPAllocationSpec =
  PoolRef :: LocalObjectReference
  TenantClusterRef :: NamespacedObjectReference
  Type :: IPAllocationType
  Count :: "32 word option"
  PinnedRange :: "PinnedIPRange option"













subsection \<open>The JSON fields that carry the enumerations\<close>

text \<open>
  The struct tags: \<^verbatim>\<open>Type IPAllocationType `json:"type"`\<close> in the spec and
  \<^verbatim>\<open>Phase IPAllocationPhase `json:"phase,omitempty"`\<close> in the status. A field is
  rendered as its key and its string value; \<^verbatim>\<open>omitempty\<close> leaves an empty string out.
\<close>

definition type_field :: "IPAllocationSpec \<Rightarrow> (string \<times> string) list" where
  "type_field s = [(''type'', Type s)]"

definition phase_field :: "IPAllocationPhase \<Rightarrow> (string \<times> string) list" where
  "phase_field p = (if p = [] then [] else [(''phase'', p)])"

subsection \<open>The fragmentation figure of the pool status\<close>

text \<open>
  \<^verbatim>\<open>NetworkPoolStatus.FragmentationPercent\<close>, an optional \<^verbatim>\<open>*int32\<close> with the markers
  \<^verbatim>\<open>Minimum=0\<close> and \<^verbatim>\<open>Maximum=100\<close>.
\<close>

definition FragmentationPercent_valid :: "32 word option \<Rightarrow> bool" where
  "FragmentationPercent_valid p =
     (case p of None \<Rightarrow> True | Some v \<Rightarrow> 0 \<le> sint v \<and> sint v \<le> 100)"

section \<open>The free list of a pool\<close>

text \<open>
  The package holds the schema of \<^verbatim>\<open>NetworkPool\<close> and \<^verbatim>\<open>IPAllocation\<close> and no allocator:
  no function of it computes a free list, a fit or a fragmentation figure. The definitions
  of this section are therefore written from the design document of the allocator, section
  4.2 (FreeListTracker), and say so one by one.
\<close>

text \<open>
  Modelled from the spec: the error kinds of the allocator (section 7, ``Taxonomy''); the
  package declares no error type.
\<close>

datatype AllocError =
    InvalidAddressError
  | RangeOrderError
  | RangeConflictError
  | OutOfRangeError
  | InsufficientSpaceError
  | PoolExhaustedError

text \<open>
  Modelled from the spec: the value type of section 4.1 (AddressSpace), an inclusive range
  \<open>[start, end]\<close> of addresses, each address the number its four octets spell in
  big-endian order. The package has no such type. Addresses are natural numbers here, so
  that \<open>end + 1\<close> never wraps; the spec bounds them by 32 bits.
\<close>

datatype AddressRange = AddressRange (range_start: nat) (range_end: nat)

text \<open>
  Modelled from the spec: the number an address \<open>a.b.c.d\<close> stands for (``unsigned 32-bit
  big-endian integers'', section 4.1), for octets below 256.
\<close>

definition ipv4 :: "nat \<Rightarrow> nat \<Rightarrow> nat \<Rightarrow> nat \<Rightarrow> nat" where
  "ipv4 a b c d = ((a * 256 + b) * 256 + c) * 256 + d"

text \<open>
  Modelled from the spec: the number of addresses of a range, both ends included
  (section 4.1: network and broadcast addresses are part of the range).
\<close>

definition range_size :: "AddressRange \<Rightarrow> nat" where
  "range_size r = Suc (range_end r) - range_start r"

text \<open>
  Modelled from the spec: the free list of section 4.2, ``a sorted, non-overlapping, merged
  list'' of free ranges: every range runs from a start to an end not below it, and between
  a range and every later one at least one address is not free.
\<close>

definition wf_free :: "AddressRange list \<Rightarrow> bool" where
  "wf_free fl =
     (list_all (\<lambda>r. range_start r \<le> range_end r) fl \<and>
      sorted_wrt (\<lambda>r q. range_end r + 1 < range_start q) fl)"



text \<open>
  Modelled from the spec: \<^verbatim>\<open>release(range)\<close> of sections 4.2 and 4.3, which puts a range
  back into the free list, ``merging ranges as needed'' and ``coalescing adjacent free
  ranges''. The range is placed by its position; a free range it overlaps or touches is
  merged into it, and the merged range is carried on down the list. It has no failure
  branch: the spec gives \<^verbatim>\<open>release\<close> no error. The package has no \<^verbatim>\<open>release\<close>.
\<close>

fun release :: "AddressRange \<Rightarrow> AddressRange list \<Rightarrow> AddressRange list" where
  "release r [] = [r]"
| "release r (b # rs) =
     (if range_end r + 1 < range_start b then r # b # rs
      else if range_end b + 1 < range_start r then b # release r rs
      else release (AddressRange (min (range_start r) (range_start b))
                                 (max (range_end r) (range_end b))) rs)"

text \<open>
  Modelled from the spec: containment of section 4.1 (\<open>A \<subseteq> B\<close>): the range \<open>b\<close> contains
  the range \<open>r\<close>.
\<close>

definition covers :: "AddressRange \<Rightarrow> AddressRange \<Rightarrow> bool" where
  "covers b r = (range_start b \<le> range_start r \<and> range_end r \<le> range_end b)"

text \<open>
  Modelled from the spec: the test for ``an already-free range'' (section 4.3), one range
  of the free list that contains the given one.
\<close>

definition is_free :: "AddressRange \<Rightarrow> AddressRange list \<Rightarrow> bool" where
  "is_free r fl = list_ex (\<lambda>b. covers b r) fl"

text \<open>
  Modelled from the spec: the set of free addresses a free list stands for.
\<close>

definition addresses :: "AddressRange list \<Rightarrow> nat set" where
  "addresses fl = (\<Union>b\<in>set fl. {range_start b..range_end b})"

text \<open>
  Modelled from the spec: ``total free'' of \<^verbatim>\<open>metrics()\<close> (section 4.2), the number of
  free addresses. The package has no \<^verbatim>\<open>metrics\<close>.
\<close>

definition totalFree :: "AddressRange list \<Rightarrow> nat" where
  "totalFree fl = sum_list (map range_size fl)"

text \<open>
  Modelled from the spec: ``largest contiguous block'' of \<^verbatim>\<open>metrics()\<close> (section 4.2), the
  size of the largest free range, 0 when nothing is free.
\<close>

definition largestFreeBlock :: "AddressRange list \<Rightarrow> nat" where
  "largestFreeBlock fl = foldr max (map range_size fl) 0"

text \<open>
  Modelled from the spec:
  \<^verbatim>\<open>FragmentationPercent = 100 * (1 - largestFreeBlock/totalFree)\<close>, ``defined as 0 when
  \<^verbatim>\<open>totalFree == 0\<close>'' (section 4.2). The quotient is the exact one, a rational number:
  the package has only the field that stores the figure, and how the figure is rounded
  into its \<^verbatim>\<open>int32\<close> is fixed nowhere.
\<close>

definition FragmentationPercent :: "AddressRange list \<Rightarrow> rat" where
  "FragmentationPercent fl =
     (if totalFree fl = 0 then 0
      else 100 * (1 - of_nat (largestFreeBlock fl) / of_nat (totalFree fl)))"

text \<open>
  Modelled from the spec: the result of \<^verbatim>\<open>metrics()\<close> (section 4.2), ``total free, largest
  contiguous block, \<^verbatim>\<open>FragmentationPercent\<close>''.
\<close>

record FreeListMetrics =
  metrics_totalFree :: nat
  metrics_largestFreeBlock :: nat
  metrics_FragmentationPercent :: rat

text \<open>
  Modelled from the spec: \<^verbatim>\<open>metrics()\<close> of section 4.2, the three figures of a free list.
\<close>

definition metrics :: "AddressRange list \<Rightarrow> FreeListMetrics" where
  "metrics fl =
     \<lparr> metrics_totalFree = totalFree fl,
       metrics_largestFreeBlock = largestFreeBlock fl,
       metrics_FragmentationPercent = FragmentationPercent fl \<rparr>"

section \<open>Properties\<close>

subsection \<open>The substring helper\<close>

lemma containsAt_scan:
  "0 \<le> i \<Longrightarrow> containsAt s substr i = Some (\<exists>k. nat i \<le> k \<and> occurs_at s substr k)"
proof (induction s substr i rule: containsAt.induct)
  case (1 s substr i)
  show ?case
  proof (cases "i \<le> int (length s) - int (length substr)")
    case False
    then have "\<not> (\<exists>k. nat i \<le> k \<and> occurs_at s substr k)"
      using 1(2) by (auto simp: occurs_at_def)
    with False show ?thesis by (subst containsAt.simps) simp
  next
    case inb: True
    show ?thesis
    proof (cases "take (length substr) (drop (nat i) s) = substr")
      case True
      then have "occurs_at s substr (nat i)" using inb 1(2) by (auto simp: occurs_at_def)
      then have "\<exists>k. nat i \<le> k \<and> occurs_at s substr k" by blast
      with True inb 1(2) show ?thesis by (subst containsAt.simps) simp
    next
      case False
      have ih: "containsAt s substr (i + 1) = Some (\<exists>k. nat (i + 1) \<le> k \<and> occurs_at s substr k)"
        using 1(1)[OF inb _ False] 1(2) by simp
      have "(\<exists>k. nat (i + 1) \<le> k \<and> occurs_at s substr k) = (\<exists>k. nat i \<le> k \<and> occurs_at s substr k)"
      proof
        assume "\<exists>k. nat (i + 1) \<le> k \<and> occurs_at s substr k"
        then obtain k where "nat (i + 1) \<le> k" "occurs_at s substr k" by blast
        then have "nat i \<le> k \<and> occurs_at s substr k" by linarith
        then show "\<exists>k. nat i \<le> k \<and> occurs_at s substr k" by blast
      next
        assume "\<exists>k. nat i \<le> k \<and> occurs_at s substr k"
        then obtain k where k: "nat i \<le> k" "occurs_at s substr k" by blast
        have "k \<noteq> nat i" using k(2) False by (auto simp: occurs_at_def)
        with k(1) have "nat (i + 1) \<le> k" using 1(2) by linarith
        with k(2) show "\<exists>k. nat (i + 1) \<le> k \<and> occurs_at s substr k" by blast
      qed
      with ih False inb 1(2) show ?thesis by (subst containsAt.simps) simp
    qed
  qed
qed

lemma occurs_at_iff_infix:
  "(\<exists>k. occurs_at s substr k) = (\<exists>ps ss. s = ps @ substr @ ss)"
proof
  assume "\<exists>k. occurs_at s substr k"
  then obtain k where k: "take (length substr) (drop k s) = substr"
    by (auto simp: occurs_at_def)
  have "drop k s = take (length substr) (drop k s) @ drop (length substr) (drop k s)"
    by (simp only: append_take_drop_id)
  then have "take k s @ drop k s =
      take k s @ take (length substr) (drop k s) @ drop (length substr) (drop k s)"
    by (simp only:)
  then have "s = take k s @ take (length substr) (drop k s) @ drop (length substr) (drop k s)"
    by (simp only: append_take_drop_id)
  with k have "s = take k s @ substr @ drop (length substr) (drop k s)" by simp
  then show "\<exists>ps ss. s = ps @ substr @ ss" by blast
next
  assume "\<exists>ps ss. s = ps @ substr @ ss"
  then obtain ps ss where "s = ps @ substr @ ss" by blast
  then have "occurs_at s substr (length ps)" by (simp add: occurs_at_def)
  then show "\<exists>k. occurs_at s substr k" by blast
qed

text \<open>
  C10. For all strings \<open>s\<close> and \<open>substr\<close>, \<^verbatim>\<open>contains(s, substr)\<close> returns (without
  panicking) true exactly when \<open>substr\<close> is a contiguous part of \<open>s\<close>: the result of
  \<^verbatim>\<open>strings.Contains\<close>. The empty string is contained in every string, the empty one
  included.
\<close>

theorem contains_iff_substring:
  "contains s substr = Some (\<exists>ps ss. s = ps @ substr @ ss) \<and> contains s [] = Some True"
proof -
  have main: "contains t u = Some (\<exists>ps ss. t = ps @ u @ ss)" for t u
  proof (cases "length u \<le> length t")
    case False
    then have "\<not> (\<exists>ps ss. t = ps @ u @ ss)" by auto
    with False show ?thesis by (simp add: contains_def)
  next
    case len: True
    show ?thesis
    proof (cases "t = u")
      case True
      then have "t = [] @ u @ []" by simp
      then have "\<exists>ps ss. t = ps @ u @ ss" by blast
      with True show ?thesis by (simp add: contains_def)
    next
      case neq: False
      show ?thesis
      proof (cases "t = []")
        case True
        with len neq show ?thesis by simp
      next
        case False
        have "containsAt t u 0 = Some (\<exists>k. occurs_at t u k)"
          using containsAt_scan[of 0 t u] by simp
        with len neq False show ?thesis
          by (simp add: contains_def occurs_at_iff_infix)
      qed
    qed
  qed
  have "s = [] @ [] @ s" by simp
  then have "\<exists>ps ss. s = ps @ [] @ ss" by blast
  moreover have "contains s [] = Some (\<exists>ps ss. s = ps @ [] @ ss)" by (rule main)
  ultimately have "contains s [] = Some True" by (simp only:)
  with main show ?thesis by (simp only: simp_thms)
qed

subsection \<open>The enumerations\<close>

text \<open>
  C9. The phase of an allocation ranges over exactly the four strings \<open>Pending\<close>,
  \<open>Allocated\<close>, \<open>Released\<close>, \<open>Failed\<close> and its type over exactly the two strings \<open>nodes\<close>,
  \<open>loadbalancer\<close>: the constants of the package are these strings character for character,
  the schema admits these values and no other, and they are stored under the JSON keys
  \<open>phase\<close> and \<open>type\<close>.
\<close>

theorem enum_strings_exact:
  "(enum_valid IPAllocationPhase_Enum p
      = (p = ''Pending'' \<or> p = ''Allocated'' \<or> p = ''Released'' \<or> p = ''Failed'')) \<and>
   (enum_valid IPAllocationType_Enum t = (t = ''nodes'' \<or> t = ''loadbalancer'')) \<and>
   [IPAllocationPhasePending, IPAllocationPhaseAllocated,
    IPAllocationPhaseReleased, IPAllocationPhaseFailed]
      = [''Pending'', ''Allocated'', ''Released'', ''Failed''] \<and>
   [IPAllocationTypeNodes, IPAllocationTypeLoadBalancer] = [''nodes'', ''loadbalancer''] \<and>
   map phase_field IPAllocationPhase_Enum =
     [[(''phase'', ''Pending'')], [(''phase'', ''Allocated'')],
      [(''phase'', ''Released'')], [(''phase'', ''Failed'')]] \<and>
   type_field s = [(''type'', Type s)]"
  by (simp add: enum_valid_def IPAllocationPhase_Enum_def IPAllocationType_Enum_def
      IPAllocationPhasePending_def IPAllocationPhaseAllocated_def
      IPAllocationPhaseReleased_def IPAllocationPhaseFailed_def
      IPAllocationTypeNodes_def IPAllocationTypeLoadBalancer_def
      phase_field_def type_field_def)

subsection \<open>Count and PinnedRange\<close>







subsection \<open>Best fit\<close>







subsection \<open>Release\<close>

lemma release_lower_bound:
  "\<forall>b\<in>set fl. m \<le> range_start b \<Longrightarrow> m \<le> range_start r \<Longrightarrow>
   \<forall>b\<in>set (release r fl). m \<le> range_start b"
proof (induction fl arbitrary: r)
  case Nil
  then show ?case by simp
next
  case (Cons h rs)
  let ?m = "AddressRange (min (range_start r) (range_start h)) (max (range_end r) (range_end h))"
  have rs: "\<forall>b\<in>set rs. m \<le> range_start b" and h: "m \<le> range_start h"
    using Cons.prems(1) by simp_all
  have "m \<le> range_start ?m" using h Cons.prems(2) by simp
  from Cons.IH[OF rs this] Cons.IH[OF rs Cons.prems(2)] h Cons.prems(2) rs
  show ?case by simp
qed

lemma release_wf:
  "wf_free fl \<Longrightarrow> range_start r \<le> range_end r \<Longrightarrow> wf_free (release r fl)"
proof (induction fl arbitrary: r)
  case Nil
  then show ?case by (simp add: wf_free_def)
next
  case (Cons b rs)
  have wf_rs: "wf_free rs" and b_ok: "range_start b \<le> range_end b"
    and gaps: "\<forall>q\<in>set rs. range_end b + 1 < range_start q"
    using Cons.prems(1) by (auto simp: wf_free_def)
  consider (before) "range_end r + 1 < range_start b"
    | (after) "\<not> range_end r + 1 < range_start b" "range_end b + 1 < range_start r"
    | (merge) "\<not> range_end r + 1 < range_start b" "\<not> range_end b + 1 < range_start r"
    by blast
  then show ?case
  proof cases
    case before
    have "\<forall>q\<in>set rs. range_end r + 1 < range_start q"
      using gaps before b_ok by fastforce
    with before Cons.prems show ?thesis by (simp add: wf_free_def)
  next
    case after
    have "\<forall>q\<in>set (release r rs). range_end b + 2 \<le> range_start q"
      using release_lower_bound[of rs "range_end b + 2" r] gaps after(2) by fastforce
    then have "\<forall>q\<in>set (release r rs). range_end b + 1 < range_start q" by fastforce
    moreover have "wf_free (release r rs)" using Cons.IH[OF wf_rs Cons.prems(2)] .
    ultimately show ?thesis using after b_ok by (simp add: wf_free_def)
  next
    case merge
    let ?m = "AddressRange (min (range_start r) (range_start b)) (max (range_end r) (range_end b))"
    have "range_start ?m \<le> range_end ?m" using Cons.prems(2) by simp
    from Cons.IH[OF wf_rs this] merge show ?thesis by simp
  qed
qed

lemma release_covers:
  "\<exists>c\<in>set (release r fl). covers c r"
proof (induction fl arbitrary: r)
  case Nil
  then show ?case by (simp add: covers_def)
next
  case (Cons b rs)
  let ?m = "AddressRange (min (range_start r) (range_start b)) (max (range_end r) (range_end b))"
  from Cons.IH[of ?m] obtain c where "c \<in> set (release ?m rs)" "covers c ?m" by blast
  then have "c \<in> set (release ?m rs) \<and> covers c r" by (simp add: covers_def)
  then have m: "\<exists>c\<in>set (release ?m rs). covers c r" by blast
  from Cons.IH[of r] m show ?case by (auto simp: covers_def)
qed

lemma release_isolated:
  "\<forall>q\<in>set rs. range_end b + 1 < range_start q \<Longrightarrow> release b rs = b # rs"
  by (cases rs) auto

lemma release_already_free:
  "wf_free fl \<Longrightarrow> range_start r \<le> range_end r \<Longrightarrow> c \<in> set fl \<Longrightarrow> covers c r \<Longrightarrow>
   release r fl = fl"
proof (induction fl)
  case Nil
  then show ?case by simp
next
  case (Cons b rs)
  have wf_rs: "wf_free rs" and b_ok: "range_start b \<le> range_end b"
    and gaps: "\<forall>q\<in>set rs. range_end b + 1 < range_start q"
    using Cons.prems(1) by (auto simp: wf_free_def)
  show ?case
  proof (cases "c = b")
    case True
    with Cons.prems(2,4) have in_b: "range_start b \<le> range_start r" "range_end r \<le> range_end b"
      by (auto simp: covers_def)
    then have "AddressRange (min (range_start r) (range_start b)) (max (range_end r) (range_end b)) = b"
      by (cases b) (simp add: min_def max_def)
    moreover have "\<not> range_end r + 1 < range_start b" "\<not> range_end b + 1 < range_start r"
      using in_b Cons.prems(2) by auto
    ultimately show ?thesis using release_isolated[OF gaps] by simp
  next
    case False
    with Cons.prems(3) have c_in: "c \<in> set rs" by simp
    with gaps have "range_end b + 1 < range_start c" by blast
    with Cons.prems(2,4) b_ok have "range_end b + 1 < range_start r" "\<not> range_end r + 1 < range_start b"
      by (auto simp: covers_def)
    with Cons.IH[OF wf_rs Cons.prems(2) c_in Cons.prems(4)] show ?thesis by simp
  qed
qed

lemma release_idem:
  assumes "wf_free fl" "range_start r \<le> range_end r"
  shows "release r (release r fl) = release r fl"
proof -
  obtain c where "c \<in> set (release r fl)" "covers c r" using release_covers by blast
  with release_already_free[OF release_wf[OF assms] assms(2)] show ?thesis by blast
qed

lemma merged_interval:
  fixes s e a c :: nat
  assumes "s \<le> e" "a \<le> c" "\<not> e + 1 < a" "\<not> c + 1 < s"
  shows "{min s a..max e c} = {s..e} \<union> {a..c}"
  using assms by auto

lemma release_addresses:
  "wf_free fl \<Longrightarrow> range_start r \<le> range_end r \<Longrightarrow>
   addresses (release r fl) = addresses fl \<union> {range_start r..range_end r}"
proof (induction fl arbitrary: r)
  case Nil
  then show ?case by (simp add: addresses_def)
next
  case (Cons b rs)
  have wf_rs: "wf_free rs" and b_ok: "range_start b \<le> range_end b"
    using Cons.prems(1) by (auto simp: wf_free_def)
  let ?m = "AddressRange (min (range_start r) (range_start b)) (max (range_end r) (range_end b))"
  consider (before) "range_end r + 1 < range_start b"
    | (after) "\<not> range_end r + 1 < range_start b" "range_end b + 1 < range_start r"
    | (merge) "\<not> range_end r + 1 < range_start b" "\<not> range_end b + 1 < range_start r"
    by blast
  then show ?case
  proof cases
    case before
    then show ?thesis by (auto simp: addresses_def)
  next
    case after
    have "addresses (release r rs) = addresses rs \<union> {range_start r..range_end r}"
      using Cons.IH[OF wf_rs Cons.prems(2)] .
    with after show ?thesis by (auto simp: addresses_def)
  next
    case merge
    have m_ok: "range_start ?m \<le> range_end ?m" using Cons.prems(2) by simp
    have "addresses (release ?m rs) = addresses rs \<union> {range_start ?m..range_end ?m}"
      using Cons.IH[OF wf_rs m_ok] .
    moreover have "{range_start ?m..range_end ?m} =
        {range_start r..range_end r} \<union> {range_start b..range_end b}"
      using merged_interval[OF Cons.prems(2) b_ok merge] by simp
    moreover have "addresses (b # rs) = {range_start b..range_end b} \<union> addresses rs"
      by (simp add: addresses_def)
    ultimately show ?thesis using merge by auto
  qed
qed






subsection \<open>Fragmentation\<close>

lemma largest_le_total: "largestFreeBlock fl \<le> totalFree fl"
  by (induction fl) (auto simp: largestFreeBlock_def totalFree_def)

lemma frag_bounds: "0 \<le> FragmentationPercent fl \<and> FragmentationPercent fl \<le> 100"
proof (cases "totalFree fl = 0")
  case True
  then show ?thesis by (simp add: FragmentationPercent_def)
next
  case False
  define x :: rat where "x = of_nat (largestFreeBlock fl) / of_nat (totalFree fl)"
  have "(of_nat (largestFreeBlock fl) :: rat) \<le> of_nat (totalFree fl)"
    using largest_le_total[of fl] by (simp only: of_nat_le_iff)
  moreover have "(0::rat) < of_nat (totalFree fl)" using False by simp
  ultimately have le1: "x \<le> 1" unfolding x_def by (simp add: divide_le_eq_1)
  have ge0: "0 \<le> x" unfolding x_def by simp
  have "FragmentationPercent fl = 100 * (1 - x)"
    using False by (simp add: FragmentationPercent_def x_def)
  with le1 ge0 show ?thesis by simp
qed

lemma sint_percent:
  assumes "0 \<le> k" and "k \<le> 100"
  shows "sint (word_of_int k :: 32 word) = k"
proof -
  have "- (2 ^ 31) \<le> k" and "k < 2 ^ 31" using assms by simp_all
  then have "signed_take_bit (31::nat) k = k" by (rule signed_take_bit_int_eq_self)
  then show ?thesis by (simp add: sint_sbintrunc')
qed

lemma rounded_percent_valid:
  assumes "(0::rat) \<le> x" and "x \<le> 100"
  shows "FragmentationPercent_valid (Some (word_of_int \<lfloor>x\<rfloor>))"
    and "FragmentationPercent_valid (Some (word_of_int \<lceil>x\<rceil>))"
proof -
  have f: "0 \<le> \<lfloor>x\<rfloor>" "\<lfloor>x\<rfloor> \<le> 100" using assms by (simp_all add: floor_le_iff)
  have c: "0 \<le> \<lceil>x\<rceil>" "\<lceil>x\<rceil> \<le> 100" using assms by (simp_all add: ceiling_le_iff)
  show "FragmentationPercent_valid (Some (word_of_int \<lfloor>x\<rfloor>))"
    using f by (simp add: FragmentationPercent_valid_def sint_percent)
  show "FragmentationPercent_valid (Some (word_of_int \<lceil>x\<rceil>))"
    using c by (simp add: FragmentationPercent_valid_def sint_percent)
qed

lemma sorted_wrt_pair:
  "sorted_wrt P xs \<Longrightarrow> x \<in> set xs \<Longrightarrow> y \<in> set xs \<Longrightarrow> x \<noteq> y \<Longrightarrow> P x y \<or> P y x"
  by (induction xs) auto

lemma is_free_iff_addresses:
  assumes wf: "wf_free fl" and ok: "range_start r \<le> range_end r"
  shows "is_free r fl = ({range_start r..range_end r} \<subseteq> addresses fl)"
proof
  assume "is_free r fl"
  then obtain c where "c \<in> set fl" "covers c r" by (auto simp: is_free_def list_ex_iff)
  show "{range_start r..range_end r} \<subseteq> addresses fl"
  proof
    fix x assume "x \<in> {range_start r..range_end r}"
    with \<open>covers c r\<close> have "x \<in> {range_start c..range_end c}" by (simp add: covers_def)
    with \<open>c \<in> set fl\<close> show "x \<in> addresses fl" unfolding addresses_def by blast
  qed
next
  assume sub: "{range_start r..range_end r} \<subseteq> addresses fl"
  have gaps: "sorted_wrt (\<lambda>r q. range_end r + 1 < range_start q) fl"
    using wf by (simp add: wf_free_def)
  from ok have "range_start r \<in> addresses fl" using sub by auto
  then obtain c where c: "c \<in> set fl" "range_start c \<le> range_start r" "range_start r \<le> range_end c"
    by (auto simp: addresses_def)
  have "range_end r \<le> range_end c"
  proof (rule ccontr)
    assume "\<not> range_end r \<le> range_end c"
    with c(3) have "range_end c + 1 \<in> {range_start r..range_end r}" by simp
    with sub have "range_end c + 1 \<in> addresses fl" by blast
    then obtain d where d: "d \<in> set fl" "range_start d \<le> range_end c + 1" "range_end c + 1 \<le> range_end d"
      by (auto simp: addresses_def)
    have "c \<noteq> d" using d(3) by auto
    from sorted_wrt_pair[OF gaps c(1) d(1) this] d(2,3) c(2,3)
    show False by auto
  qed
  with c have "c \<in> set fl \<and> covers c r" by (simp add: covers_def)
  then show "is_free r fl" by (auto simp: is_free_def list_ex_iff)
qed

subsection \<open>Claims about the free list\<close>




text \<open>
  C6. For every well-formed free list and every range, \<^verbatim>\<open>release(range)\<close> is idempotent:
  releasing a range that is already free (each of its addresses is a free one, which in a
  merged list means that one free range holds it) leaves the free list as it is, and
  releasing any range twice in succession gives the free list that releasing it once
  gives. After the release the range is free, the free list is well-formed again, and its
  addresses are those that were free before and those of the range. \<^verbatim>\<open>release\<close> has no
  error result.
\<close>

theorem release_idempotent:
  assumes "wf_free fl" and "range_start r \<le> range_end r"
  shows "is_free r fl = ({range_start r..range_end r} \<subseteq> addresses fl) \<and>
         (is_free r fl \<longrightarrow> release r fl = fl) \<and>
         release r (release r fl) = release r fl \<and>
         is_free r (release r fl) \<and>
         wf_free (release r fl) \<and>
         addresses (release r fl) = addresses fl \<union> {range_start r..range_end r}"
proof (intro conjI impI)
  show "is_free r fl = ({range_start r..range_end r} \<subseteq> addresses fl)"
    using is_free_iff_addresses[OF assms] .
next
  assume "is_free r fl"
  then obtain c where "c \<in> set fl" "covers c r"
    by (auto simp: is_free_def list_ex_iff)
  then show "release r fl = fl"
    using release_already_free[OF assms] by blast
next
  show "release r (release r fl) = release r fl" using release_idem[OF assms] .
next
  show "is_free r (release r fl)"
    using release_covers[of r fl] by (simp add: is_free_def list_ex_iff)
next
  show "wf_free (release r fl)" using release_wf[OF assms] .
next
  show "addresses (release r fl) = addresses fl \<union> {range_start r..range_end r}"
    using release_addresses[OF assms] .
qed

text \<open>
  The theorem in the pool \<open>10.0.0.0/24\<close>, with \<open>10.0.0.0\<close>--\<open>10.0.0.9\<close> and
  \<open>10.0.0.21\<close>--\<open>10.0.0.255\<close> free: releasing \<open>10.0.0.10\<close>--\<open>10.0.0.20\<close> merges the three
  into the whole pool, and releasing it once more changes nothing.
\<close>

theorem release_idempotent_witness:
  "wf_free [AddressRange (ipv4 10 0 0 0) (ipv4 10 0 0 9),
            AddressRange (ipv4 10 0 0 21) (ipv4 10 0 0 255)] \<and>
   ipv4 10 0 0 10 \<le> ipv4 10 0 0 20 \<and>
   release (AddressRange (ipv4 10 0 0 10) (ipv4 10 0 0 20))
     [AddressRange (ipv4 10 0 0 0) (ipv4 10 0 0 9),
      AddressRange (ipv4 10 0 0 21) (ipv4 10 0 0 255)]
     = [AddressRange (ipv4 10 0 0 0) (ipv4 10 0 0 255)] \<and>
   is_free (AddressRange (ipv4 10 0 0 10) (ipv4 10 0 0 20))
     [AddressRange (ipv4 10 0 0 0) (ipv4 10 0 0 255)] \<and>
   release (AddressRange (ipv4 10 0 0 10) (ipv4 10 0 0 20))
     [AddressRange (ipv4 10 0 0 0) (ipv4 10 0 0 255)]
     = [AddressRange (ipv4 10 0 0 0) (ipv4 10 0 0 255)]"
proof -
  let ?r = "AddressRange (ipv4 10 0 0 10) (ipv4 10 0 0 20)"
  let ?fl = "[AddressRange (ipv4 10 0 0 0) (ipv4 10 0 0 9),
              AddressRange (ipv4 10 0 0 21) (ipv4 10 0 0 255)]"
  let ?all = "[AddressRange (ipv4 10 0 0 0) (ipv4 10 0 0 255)]"
  have wf: "wf_free ?fl" by (simp add: wf_free_def ipv4_def)
  have ok: "range_start ?r \<le> range_end ?r" by (simp add: ipv4_def)
  have once: "release ?r ?fl = ?all" by (simp add: ipv4_def)
  have wf_all: "wf_free ?all" by (simp add: wf_free_def ipv4_def)
  have free: "is_free ?r ?all" by (simp add: is_free_def covers_def ipv4_def)
  note again = release_idempotent[OF wf ok, THEN conjunct2, THEN conjunct2, THEN conjunct1]
  note noop = release_idempotent[OF wf_all ok, THEN conjunct2, THEN conjunct1,
      rule_format, OF free]
  from again once have "release ?r ?all = release ?r ?fl" by simp
  with wf ok once free noop show ?thesis by simp
qed

text \<open>
  C7. For every free list, \<^verbatim>\<open>metrics()\<close> returns the sum of the sizes of the free ranges,
  the size of the largest one, and \<^verbatim>\<open>FragmentationPercent\<close> equal to
  \<open>100 * (1 - largestFreeBlock / totalFree)\<close>, which is 0 when nothing is free. The figure
  lies between 0 and 100, and it is the share, in percent, of the free addresses that are
  not in the largest free block. Rounded down or up to a whole number, it is a value the
  schema admits in the field \<^verbatim>\<open>NetworkPoolStatus.FragmentationPercent\<close>.
\<close>

theorem FragmentationPercent_bounds:
  "metrics_FragmentationPercent (metrics fl) =
     (if metrics_totalFree (metrics fl) = 0 then 0
      else 100 * (1 - of_nat (metrics_largestFreeBlock (metrics fl))
                       / of_nat (metrics_totalFree (metrics fl)))) \<and>
   0 \<le> metrics_FragmentationPercent (metrics fl) \<and>
   metrics_FragmentationPercent (metrics fl) \<le> 100 \<and>
   metrics_FragmentationPercent (metrics fl) * of_nat (metrics_totalFree (metrics fl)) =
     100 * of_nat (metrics_totalFree (metrics fl) - metrics_largestFreeBlock (metrics fl)) \<and>
   metrics_totalFree (metrics fl) = sum_list (map range_size fl) \<and>
   metrics_largestFreeBlock (metrics fl) = Max (insert 0 (range_size ` set fl)) \<and>
   FragmentationPercent_valid
     (Some (word_of_int \<lfloor>metrics_FragmentationPercent (metrics fl)\<rfloor>)) \<and>
   FragmentationPercent_valid
     (Some (word_of_int \<lceil>metrics_FragmentationPercent (metrics fl)\<rceil>))"
proof -
  have share: "FragmentationPercent fl * of_nat (totalFree fl) =
      100 * of_nat (totalFree fl - largestFreeBlock fl)"
  proof (cases "totalFree fl = 0")
    case True
    then show ?thesis by simp
  next
    case False
    then have "FragmentationPercent fl * of_nat (totalFree fl) =
        100 * (of_nat (totalFree fl) - of_nat (largestFreeBlock fl))"
      by (simp add: FragmentationPercent_def field_simps)
    also have "\<dots> = 100 * of_nat (totalFree fl - largestFreeBlock fl)"
      using largest_le_total[of fl] by simp
    finally show ?thesis .
  qed
  have largest: "largestFreeBlock fl = Max (insert 0 (range_size ` set fl))"
  proof (induction fl)
    case Nil
    show ?case by (simp add: largestFreeBlock_def)
  next
    case (Cons a fl)
    have "insert 0 (range_size ` set (a # fl)) =
        insert (range_size a) (insert 0 (range_size ` set fl))"
      by auto
    then have "Max (insert 0 (range_size ` set (a # fl))) =
        Max (insert (range_size a) (insert 0 (range_size ` set fl)))"
      by (simp only:)
    also have "\<dots> = max (range_size a) (Max (insert 0 (range_size ` set fl)))"
      by (rule Max_insert) simp_all
    also have "\<dots> = max (range_size a) (largestFreeBlock fl)"
      by (simp only: Cons.IH)
    also have "\<dots> = largestFreeBlock (a # fl)"
      by (simp add: largestFreeBlock_def)
    finally show ?case by (rule sym)
  qed
  have bounds: "0 \<le> FragmentationPercent fl" "FragmentationPercent fl \<le> 100"
    using frag_bounds[of fl] by simp_all
  have stored: "FragmentationPercent_valid (Some (word_of_int \<lfloor>FragmentationPercent fl\<rfloor>))"
    "FragmentationPercent_valid (Some (word_of_int \<lceil>FragmentationPercent fl\<rceil>))"
    using rounded_percent_valid[OF bounds] by simp_all
  have formula: "FragmentationPercent fl =
      (if totalFree fl = 0 then 0
       else 100 * (1 - of_nat (largestFreeBlock fl) / of_nat (totalFree fl)))"
    by (simp add: FragmentationPercent_def)
  have total: "totalFree fl = sum_list (map range_size fl)"
    by (simp add: totalFree_def)
  from formula bounds share total largest stored show ?thesis
    by (simp only: metrics_def FreeListMetrics.simps simp_thms)
qed

end
